theory Spec2Isabelle
  imports Main "HOL-Library.Word" "HOL-Library.AList"
begin

unbundle bit_operations_syntax

section \<open>Machine types and results\<close>

type_synonym u64 = "64 word"
type_synonym byte = "8 word"

text \<open>
  The Go \<open>error\<close> values that the package produces or passes on: \<open>io.EOF\<close>,
  \<open>io.ErrUnexpectedEOF\<close> (from \<open>io.ReadFull\<close>), \<open>errors.New("Too large of a number!")\<close>
  and \<open>errors.New("stream closed")\<close>. A Go \<open>error\<close> result is an \<open>error option\<close>,
  \<open>None\<close> being \<open>nil\<close>.
\<close>

datatype error = EOF | ErrUnexpectedEOF | TooLarge | StreamClosed

text \<open>
  A call either returns, or waits for another goroutine (\<open>Blocks\<close>: no case of a
  \<open>select\<close> without \<open>default\<close> can proceed), or panics, or the Go runtime ends the
  process with a fatal error (\<open>Dies\<close>: out of memory).
\<close>

datatype 'a outcome = Returns 'a | Blocks | Panics | Dies

section \<open>Varint codec\<close>

text \<open>
  \<open>EncodeVarint\<close> fills a fixed array \<open>buf [10]byte\<close> at index \<open>n\<close>. An index
  outside the array panics in Go, so the loop returns \<open>None\<close> there; the loop ends
  because \<open>x >>= 7\<close> makes \<open>x\<close> smaller whenever \<open>x > 127\<close>.
\<close>

function EncodeVarint_loop :: "u64 \<Rightarrow> nat \<Rightarrow> byte list \<Rightarrow> byte list option" where
  "EncodeVarint_loop x n buf =
     (if x > 127 then
        (if n < length buf
         then EncodeVarint_loop (drop_bit 7 x) (n + 1) (buf[n := 0x80 OR ucast (x AND 0x7F)])
         else None)
      else
        (if n < length buf then Some (take (n + 1) (buf[n := ucast x])) else None))"
  by pat_completeness auto
termination
proof (relation "measure (\<lambda>(x, n, buf). unat x)")
  show "wf (measure (\<lambda>(x :: u64, n :: nat, buf :: byte list). unat x))"
    by simp
next
  fix x :: u64 and n :: nat and buf :: "byte list"
  assume "127 < x"
  then have "x \<noteq> 0" by auto
  then have "0 < unat x" by (simp add: unat_gt_0)
  then have "unat x div 2 ^ 7 < unat x" by simp
  then show "((drop_bit 7 x, n + 1, buf[n := 0x80 OR ucast (x AND 0x7F)]), x, n, buf)
               \<in> measure (\<lambda>(x, n, buf). unat x)"
    by (simp add: drop_bit_eq_div unat_div)
qed

definition EncodeVarint :: "u64 \<Rightarrow> byte list option" where
  "EncodeVarint x = EncodeVarint_loop x 0 (replicate 10 0)"

text \<open>
  The reader \<open>*bufio.Reader\<close> is the list of bytes the transport still delivers; after
  the last byte \<open>ReadByte\<close> reports \<open>io.EOF\<close>. \<open>DecodeVarint\<close> returns the value, the
  number of bytes read and the reader's remaining bytes, or the error.
\<close>

function DecodeVarint_loop ::
  "nat \<Rightarrow> u64 \<Rightarrow> nat \<Rightarrow> byte list \<Rightarrow> error + (u64 \<times> nat \<times> byte list)" where
  "DecodeVarint_loop shift x n r =
     (if shift < 64 then
        (case r of
           [] \<Rightarrow> Inl EOF
         | val # r' \<Rightarrow>
             (let b = (ucast val :: u64);
                  n' = n + 1;
                  x' = x OR push_bit shift (b AND 0x7F)
              in if b AND 0x80 = 0 then Inr (x', n', r')
                 else DecodeVarint_loop (shift + 7) x' n' r'))
      else Inl TooLarge)"
  by pat_completeness auto
termination
  by (relation "measure (\<lambda>(shift, x, n, r). 64 - shift)") auto

definition DecodeVarint :: "byte list \<Rightarrow> error + (u64 \<times> nat \<times> byte list)" where
  "DecodeVarint r = DecodeVarint_loop 0 0 0 r"


subsection \<open>The bytes of a varint\<close>

text \<open>
  The bytes that the loop of \<open>EncodeVarint\<close> writes, as a list: 7-bit groups, lowest
  first, each with the high bit set except the last. Lemma \<open>EncodeVarint_varint_bytes\<close>
  shows that \<open>EncodeVarint\<close> returns this list and never indexes outside its array.
\<close>

function varint_bytes :: "u64 \<Rightarrow> byte list" where
  "varint_bytes x =
     (if x > 127 then (0x80 OR ucast (x AND 0x7F)) # varint_bytes (drop_bit 7 x)
      else [ucast x])"
  by pat_completeness auto
termination
proof (relation "measure unat")
  show "wf (measure (unat :: u64 \<Rightarrow> nat))" by simp
next
  fix x :: u64
  assume "127 < x"
  then have "x \<noteq> 0" by auto
  then have "0 < unat x" by (simp add: unat_gt_0)
  then have "unat x div 2 ^ 7 < unat x" by simp
  then show "(drop_bit 7 x, x) \<in> measure unat"
    by (simp add: drop_bit_eq_div unat_div)
qed

section \<open>Frame tags and messages\<close>

text \<open>
  The constant block \<open>const (NewStream = iota; Receiver; Initiator; Unknown; Close)\<close>:
  \<open>iota\<close> counts the lines of the block from 0.
\<close>

definition NewStream :: u64 where "NewStream = 0"
definition Receiver :: u64 where "Receiver = 1"
definition Initiator :: u64 where "Initiator = 2"
definition Unknown :: u64 where "Unknown = 3"
definition Close :: u64 where "Close = 4"

text \<open>The struct \<open>msg\<close>; its field \<open>err\<close> is never set or read.\<close>

record msg =
  msg_header :: u64
  msg_data :: "byte list"

section \<open>Select\<close>

text \<open>
  A \<open>select\<close> with two communication cases and no \<open>default\<close>: it waits while
  neither case can proceed, runs the one that can, and when both can it runs one of them,
  chosen by the Go scheduler. The choice is the argument \<open>pick\<close> (\<open>True\<close>: the case
  written first).
\<close>

datatype sel = First | Second

definition select2 :: "bool \<Rightarrow> bool \<Rightarrow> bool \<Rightarrow> sel option" where
  "select2 ready1 ready2 pick =
     (if ready1 \<and> ready2 then Some (if pick then First else Second)
      else if ready1 then Some First
      else if ready2 then Some Second
      else None)"

text \<open>
  Two constant schedules for the arguments that stand for the scheduler and the
  serializer: \<open>always\<close> takes the first case of every \<open>select\<close> and finds the
  serializer waiting each time, \<open>never\<close> does the opposite.
\<close>

definition always :: "'a \<Rightarrow> bool" where
  "always x = True"

definition never :: "'a \<Rightarrow> bool" where
  "never x = False"

declare always_def [simp] never_def [simp]

section \<open>Stream\<close>

text \<open>
  The struct \<open>Stream\<close>. \<open>sid\<close> is the field \<open>id\<close>; \<open>name\<close> is the Go string as its
  bytes. The channel \<open>closed\<close> carries no values: the field says whether it has been
  closed. The buffered channel \<open>data_in\<close> (capacity 8) is its queue, oldest first, and
  \<open>data_in_closed\<close> says whether the channel has been closed. \<open>buf\<close> holds the unread
  bytes of the \<open>bytes.Buffer\<close>. \<open>data_out\<close> is the multiplexer's unbuffered \<open>outchan\<close>,
  shared by all streams: a send on it can proceed only while the serializer
  \<open>handleOutgoing\<close> is waiting to receive, which the operations take as the argument
  \<open>ready\<close>; they return the messages handed over.
\<close>

record Stream =
  sid :: u64
  name :: "byte list"
  header :: u64
  closed :: bool
  data_in :: "byte list list"
  data_in_closed :: bool
  buf :: "byte list"

definition newStream :: "u64 \<Rightarrow> byte list \<Rightarrow> bool \<Rightarrow> Stream" where
  "newStream i nm ini =
     (let hfn = (if ini then 2 else 1)
      in \<lparr>sid = i, name = nm, header = push_bit 3 i OR hfn, closed = False,
          data_in = [], data_in_closed = False, buf = []\<rparr>)"

text \<open>
  \<open>receive\<close>: the send on \<open>data_in\<close> can proceed when the queue has room, and also when the
  channel is closed, where proceeding is the panic \<open>send on closed channel\<close>.
\<close>

definition receive :: "bool \<Rightarrow> Stream \<Rightarrow> byte list \<Rightarrow> Stream outcome" where
  "receive pick s b =
     (case select2 (data_in_closed s \<or> length (data_in s) < 8) (closed s) pick of
        None \<Rightarrow> Blocks
      | Some First \<Rightarrow>
          (if data_in_closed s then Panics else Returns (s\<lparr>data_in := data_in s @ [b]\<rparr>))
      | Some Second \<Rightarrow> Returns s)"

text \<open>
  \<open>bytes.Buffer.Read\<close> on a buffer holding \<open>bf\<close>, into a slice of length \<open>lp\<close>: the
  count, the error, the bytes copied and the bytes left in the buffer.
\<close>

definition Buffer_Read :: "byte list \<Rightarrow> nat \<Rightarrow> nat \<times> error option \<times> byte list \<times> byte list" where
  "Buffer_Read bf lp =
     (if bf = [] then (if lp = 0 then (0, None, [], []) else (0, Some EOF, [], []))
      else (min lp (length bf), None, take lp bf, drop lp bf))"

text \<open>
  \<open>Read\<close> takes the length \<open>lb\<close> of the caller's slice and returns the count, the error,
  the bytes it copied to the front of the slice, and the stream. \<open>len_b\<close> is the length of
  the window \<open>b\<close> still to fill, \<open>out\<close> the bytes copied so far; \<open>pick i\<close> is the
  scheduler's choice at the \<open>i\<close>-th pass of the loop. A receive from \<open>data_in\<close> can proceed
  when the queue holds a payload or the channel is closed; from a closed and empty
  channel it yields \<open>ok = false\<close>.
\<close>

function Read_loop ::
  "(nat \<Rightarrow> bool) \<Rightarrow> nat \<Rightarrow> Stream \<Rightarrow> nat \<Rightarrow> nat \<Rightarrow> byte list \<Rightarrow> nat
     \<Rightarrow> (nat \<times> error option \<times> byte list \<times> Stream) outcome" where
  "Read_loop pick i s len_b nread out lb =
     (if len_b > 0 then
        (case select2 (data_in s \<noteq> [] \<or> data_in_closed s) (closed s) (pick i) of
           None \<Rightarrow> Blocks
         | Some First \<Rightarrow>
             (case data_in s of
                [] \<Rightarrow> Returns (nread, None, out, s)
              | d # ds \<Rightarrow>
                  (let n = min len_b (length d) in
                   if n < length d
                   then Returns (lb, None, out @ take n d,
                                 s\<lparr>data_in := ds, buf := buf s @ drop n d\<rparr>)
                   else Read_loop pick (i + 1) (s\<lparr>data_in := ds\<rparr>) (len_b - n) (nread + n)
                          (out @ take n d) lb))
         | Some Second \<Rightarrow> Returns (nread, None, out, s))
      else Returns (lb, None, out, s))"
  by pat_completeness auto
termination
  by (relation "measure (\<lambda>(pick, i, s, len_b, nread, out, lb). length (data_in s))") auto

definition Read ::
  "(nat \<Rightarrow> bool) \<Rightarrow> Stream \<Rightarrow> nat \<Rightarrow> (nat \<times> error option \<times> byte list \<times> Stream) outcome" where
  "Read pick s lb =
     (if closed s then Returns (0, Some EOF, [], s)
      else if buf s \<noteq> [] then
        (case Buffer_Read (buf s) lb of
           (n, err, bs, rest) \<Rightarrow>
             (if err \<noteq> None then Returns (0, err, bs, s\<lparr>buf := rest\<rparr>)
              else if n \<ge> lb then Returns (n, None, bs, s\<lparr>buf := rest\<rparr>)
              else Read_loop pick 0 (s\<lparr>buf := rest\<rparr>) (lb - n) n bs lb))
      else Read_loop pick 0 s lb 0 [] lb)"

text \<open>\<open>Write\<close> returns the count, the error and the messages handed to the serializer.\<close>

definition Write :: "bool \<Rightarrow> bool \<Rightarrow> Stream \<Rightarrow> byte list \<Rightarrow> (nat \<times> error option \<times> msg list) outcome" where
  "Write ready pick s b =
     (case select2 ready (closed s) pick of
        None \<Rightarrow> Blocks
      | Some First \<Rightarrow> Returns (length b, None, [\<lparr>msg_header = header s, msg_data = b\<rparr>])
      | Some Second \<Rightarrow> Returns (0, Some StreamClosed, []))"

text \<open>
  \<open>Stream.Close\<close>. The inner \<open>select\<close> has a \<open>default\<close>: the Close message is handed over
  only if the serializer is waiting. Closing a channel that is closed already panics.
\<close>

definition Stream_Close :: "bool \<Rightarrow> Stream \<Rightarrow> (error option \<times> Stream \<times> msg list) outcome" where
  "Stream_Close ready s =
     (if closed s then Returns (None, s, [])
      else if data_in_closed s then Panics
      else Returns (None, s\<lparr>closed := True, data_in_closed := True\<rparr>,
                    if ready then [\<lparr>msg_header = push_bit 3 (sid s) OR Close, msg_data = []\<rparr>]
                    else []))"


section \<open>Multiplex\<close>

text \<open>
  The struct \<open>Multiplex\<close>. \<open>con\<close> holds the bytes the transport still delivers, read
  through the \<open>bufio.Reader\<close> \<open>buf\<close>; after the last byte the transport reports
  \<open>io.EOF\<close>. \<open>outchan\<close> is the list of messages the serializer has received so far.
  \<open>mp_closed\<close> says whether the channel \<open>closed\<close> has been closed. The map \<open>channels\<close>
  holds pointers: \<open>heap\<close> maps an address to the \<open>Stream\<close> stored there and
  \<open>next_addr\<close> is the next free address, so that a stream deleted from the map is still
  there for the handler that holds it. \<open>spawned\<close> lists the addresses of the streams
  handed to \<open>go handler(msch)\<close>, in order. The map is kept as an association list; Go
  fixes no iteration order for a map, the model ranges over it in list order.
\<close>

record Multiplex =
  con :: "byte list"
  nextID :: u64
  outchan :: "msg list"
  mp_closed :: bool
  initiator :: bool
  channels :: "(u64 \<times> nat) list"
  heap :: "nat \<Rightarrow> Stream"
  next_addr :: nat
  spawned :: "nat list"

definition NewMultiplex :: "byte list \<Rightarrow> bool \<Rightarrow> Multiplex" where
  "NewMultiplex c ini =
     \<lparr>con = c, nextID = 0, outchan = [], mp_closed = False, initiator = ini,
      channels = [], heap = (\<lambda>a. newStream 0 [] False), next_addr = 0, spawned = []\<rparr>"

definition IsClosed :: "Multiplex \<Rightarrow> bool" where
  "IsClosed mp = mp_closed mp"

text \<open>
  The loop \<open>for _, s := range mp.channels\<close> of \<open>Multiplex.Close\<close>, which returns the
  first error of a \<open>s.Close()\<close>; \<open>ready i\<close> says whether the serializer is waiting when
  the stream with id \<open>i\<close> is closed.
\<close>

fun Close_range ::
  "(u64 \<Rightarrow> bool) \<Rightarrow> (u64 \<times> nat) list \<Rightarrow> Multiplex \<Rightarrow> (error option \<times> Multiplex) outcome" where
  "Close_range ready [] mp = Returns (None, mp)"
| "Close_range ready ((i, a) # cs) mp =
     (case Stream_Close (ready i) (heap mp a) of
        Returns (err, s', sent) \<Rightarrow>
          (let mp' = mp\<lparr>heap := (heap mp)(a := s'), outchan := outchan mp @ sent\<rparr>
           in if err \<noteq> None then Returns (err, mp') else Close_range ready cs mp')
      | Blocks \<Rightarrow> Blocks
      | Panics \<Rightarrow> Panics
      | Dies \<Rightarrow> Dies)"

definition Multiplex_Close :: "(u64 \<Rightarrow> bool) \<Rightarrow> Multiplex \<Rightarrow> (error option \<times> Multiplex) outcome" where
  "Multiplex_Close ready mp =
     (if IsClosed mp then Returns (None, mp)
      else Close_range ready (channels mp) (mp\<lparr>mp_closed := True\<rparr>))"



text \<open>
  The body of the loop of \<open>handleOutgoing\<close> for one message: the bytes of its three
  \<open>con.Write\<close> calls, taken to succeed.
\<close>

definition handleOutgoing_msg :: "msg \<Rightarrow> byte list option" where
  "handleOutgoing_msg m =
     (case EncodeVarint (msg_header m) of
        None \<Rightarrow> None
      | Some hb \<Rightarrow>
          (case EncodeVarint (word_of_nat (length (msg_data m))) of
             None \<Rightarrow> None
           | Some lb \<Rightarrow> Some (hb @ lb @ msg_data m)))"

definition nextChanID :: "Multiplex \<Rightarrow> u64 \<times> Multiplex" where
  "nextChanID mp =
     (let out = (if initiator mp then nextID mp + 1 else nextID mp)
      in (out, mp\<lparr>nextID := nextID mp + 2\<rparr>))"

section \<open>Reading frames\<close>

text \<open>The stream id, the tag and the reader's remaining bytes.\<close>

definition readNextHeader :: "byte list \<Rightarrow> error + (u64 \<times> u64 \<times> byte list)" where
  "readNextHeader r =
     (case DecodeVarint r of
        Inl err \<Rightarrow> Inl err
      | Inr (h, n, r') \<Rightarrow> Inr (drop_bit 3 h, h AND 7, r'))"

text \<open>
  \<open>io.ReadFull\<close> into a slice of length \<open>l\<close>: \<open>io.EOF\<close> if the reader ends before the
  first byte, \<open>io.ErrUnexpectedEOF\<close> if it ends after some but not all bytes. The result
  is the count, the error, the bytes read and the reader's remaining bytes.
\<close>

definition ReadFull :: "byte list \<Rightarrow> nat \<Rightarrow> nat \<times> error option \<times> byte list \<times> byte list" where
  "ReadFull r l =
     (if l \<le> length r then (l, None, take l r, drop l r)
      else if r = [] then (0, Some EOF, [], [])
      else (length r, Some ErrUnexpectedEOF, r, []))"

text \<open>
  \<open>make([]byte, l)\<close> panics (\<open>makeslice: len out of range\<close>) when \<open>l\<close> exceeds the
  largest allocation of the Go runtime, \<open>maxAlloc\<close>, which is \<open>2 ^ 48\<close> bytes on 64-bit
  Linux. Below that the allocation succeeds only if the memory is there: \<open>avail\<close> is
  the number of bytes the runtime can still allocate at that moment, and a longer slice
  ends the process with \<open>fatal error: out of memory\<close>.
\<close>

definition maxAlloc :: nat where
  "maxAlloc = 2 ^ 48"

definition readNext :: "nat \<Rightarrow> byte list \<Rightarrow> (error + (byte list \<times> byte list)) outcome" where
  "readNext avail r =
     (case DecodeVarint r of
        Inl err \<Rightarrow> Returns (Inl err)
      | Inr (l, m, r') \<Rightarrow>
          (if maxAlloc < unat l then Panics
           else if avail < unat l then Dies
           else
             (case ReadFull r' (unat l) of
                (n, Some err, bs, rest) \<Rightarrow> Returns (Inl err)
              | (n, None, bs, rest) \<Rightarrow>
                  (if int n \<noteq> sint l then Panics else Returns (Inr (bs, rest))))))"

section \<open>The dispatch loop\<close>

text \<open>
  The part of the loop body of \<open>Serve\<close> after the two reads: \<open>dispatch\<close> looks the
  stream up and creates it if it is missing, \<open>deliver\<close> is the rest of the body for the
  stream at address \<open>a\<close>. \<open>ready\<close> and \<open>pick\<close> are as for \<open>Stream_Close\<close> and
  \<open>receive\<close>. The channel lock is not modelled: the loop is the only goroutine that
  runs here.
\<close>

definition deliver ::
  "bool \<Rightarrow> bool \<Rightarrow> Multiplex \<Rightarrow> nat \<Rightarrow> u64 \<Rightarrow> u64 \<Rightarrow> byte list \<Rightarrow> Multiplex outcome" where
  "deliver ready pick mp a ch tag b =
     (if tag = Close then
        (case Stream_Close ready (heap mp a) of
           Returns (err, s', sent) \<Rightarrow>
             Returns (mp\<lparr>heap := (heap mp)(a := s'), outchan := outchan mp @ sent,
                        channels := AList.delete ch (channels mp)\<rparr>)
         | Blocks \<Rightarrow> Blocks
         | Panics \<Rightarrow> Panics
         | Dies \<Rightarrow> Dies)
      else
        (case receive pick (heap mp a) b of
           Returns s' \<Rightarrow> Returns (mp\<lparr>heap := (heap mp)(a := s')\<rparr>)
         | Blocks \<Rightarrow> Blocks
         | Panics \<Rightarrow> Panics
         | Dies \<Rightarrow> Dies))"

text \<open>
  The branch \<open>if !ok\<close> up to \<open>go handler(msch)\<close>: the new stream, stored in the map,
  with the handler started on it. The result is the state in which the handler starts
  to run, and the address of its stream.
\<close>

definition open_stream :: "Multiplex \<Rightarrow> u64 \<Rightarrow> u64 \<Rightarrow> byte list \<Rightarrow> Multiplex \<times> nat" where
  "open_stream mp ch tag b =
     (let nm = (if tag = NewStream then b else []);
          a = next_addr mp
      in (mp\<lparr>heap := (heap mp)(a := newStream ch nm False),
             next_addr := a + 1,
             channels := AList.update ch a (channels mp),
             spawned := spawned mp @ [a]\<rparr>, a))"

definition dispatch ::
  "bool \<Rightarrow> bool \<Rightarrow> Multiplex \<Rightarrow> u64 \<Rightarrow> u64 \<Rightarrow> byte list \<Rightarrow> Multiplex outcome" where
  "dispatch ready pick mp ch tag b =
     (case map_of (channels mp) ch of
        None \<Rightarrow>
          (case open_stream mp ch tag b of
             (mp', a) \<Rightarrow>
               if tag = NewStream then Returns mp' else deliver ready pick mp' a ch tag b)
      | Some a \<Rightarrow> deliver ready pick mp a ch tag b)"

datatype step = Continue Multiplex | Return "error option"

definition serve_step :: "bool \<Rightarrow> bool \<Rightarrow> nat \<Rightarrow> Multiplex \<Rightarrow> step outcome" where
  "serve_step ready pick avail mp =
     (case readNextHeader (con mp) of
        Inl err \<Rightarrow> Returns (Return (if err = EOF then None else Some err))
      | Inr (ch, tag, r1) \<Rightarrow>
          (case readNext avail r1 of
             Returns (Inl err) \<Rightarrow> Returns (Return (if err = EOF then None else Some err))
           | Returns (Inr (b, r2)) \<Rightarrow>
               (case dispatch ready pick (mp\<lparr>con := r2\<rparr>) ch tag b of
                  Returns mp' \<Rightarrow> Returns (Continue mp')
                | Blocks \<Rightarrow> Blocks
                | Panics \<Rightarrow> Panics
                | Dies \<Rightarrow> Dies)
           | Blocks \<Rightarrow> Blocks
           | Panics \<Rightarrow> Panics
           | Dies \<Rightarrow> Dies))"


declare EncodeVarint_loop.simps [simp del]
declare varint_bytes.simps [simp del]
declare DecodeVarint_loop.simps [simp del]
declare Read_loop.simps [simp del]












text \<open>
  Two memory schedules: under \<open>enough\<close> every allocation that \<open>make\<close> accepts
  succeeds, under \<open>exhausted\<close> no byte can be allocated.
\<close>

definition enough :: "nat \<Rightarrow> nat" where
  "enough k = maxAlloc"

definition exhausted :: "nat \<Rightarrow> nat" where
  "exhausted k = 0"

declare enough_def [simp] exhausted_def [simp]


text \<open>The ids that \<open>n\<close> successive calls of \<open>nextChanID\<close> return, first call first.\<close>

fun nextChanIDs :: "nat \<Rightarrow> Multiplex \<Rightarrow> u64 list" where
  "nextChanIDs 0 mp = []"
| "nextChanIDs (Suc n) mp = (case nextChanID mp of (out, mp') \<Rightarrow> out # nextChanIDs n mp')"

section \<open>The bytes of a varint: lemmas\<close>

lemma length_varint_bytes_pos: "0 < length (varint_bytes x)"
  by (subst varint_bytes.simps) simp

lemma EncodeVarint_loop_varint_bytes:
  "n + length (varint_bytes x) \<le> length arr \<Longrightarrow>
   EncodeVarint_loop x n arr = Some (take n arr @ varint_bytes x)"
proof (induction x n arr rule: EncodeVarint_loop.induct)
  case (1 x n arr)
  show ?case
  proof (cases "x > 127")
    case True
    from "1.prems" True have len: "n + 1 + length (varint_bytes (drop_bit 7 x)) \<le> length arr"
      by (subst (asm) varint_bytes.simps) simp
    then have n: "n < length arr" by simp
    have "EncodeVarint_loop x n arr =
          EncodeVarint_loop (drop_bit 7 x) (n + 1) (arr[n := 0x80 OR ucast (x AND 0x7F)])"
      using True n by (subst EncodeVarint_loop.simps) simp
    also have "\<dots> = Some (take (n + 1) (arr[n := 0x80 OR ucast (x AND 0x7F)])
                        @ varint_bytes (drop_bit 7 x))"
      using "1.IH" [OF True n] len by simp
    also have "take (n + 1) (arr[n := 0x80 OR ucast (x AND 0x7F)])
               = take n arr @ [0x80 OR ucast (x AND 0x7F)]"
      using n by (simp add: take_Suc_conv_app_nth)
    finally show ?thesis
      using True by (subst varint_bytes.simps) simp
  next
    case False
    from "1.prems" have n: "n < length arr"
      using length_varint_bytes_pos [of x] by linarith
    have "EncodeVarint_loop x n arr = Some (take (n + 1) (arr[n := ucast x]))"
      using False n by (subst EncodeVarint_loop.simps) simp
    also have "take (n + 1) (arr[n := ucast x]) = take n arr @ [ucast x]"
      using n by (simp add: take_Suc_conv_app_nth)
    finally show ?thesis
      using False by (subst varint_bytes.simps) simp
  qed
qed

lemma length_varint_bytes_le:
  "0 < k \<Longrightarrow> unat x < 2 ^ (7 * k) \<Longrightarrow> length (varint_bytes x) \<le> k"
proof (induction k arbitrary: x)
  case 0
  then show ?case by simp
next
  case (Suc k)
  show ?case
  proof (cases "x > 127")
    case False
    then show ?thesis by (subst varint_bytes.simps) simp
  next
    case True
    then have big: "127 < unat x" by (simp add: word_less_nat_alt)
    have k: "0 < k"
    proof (rule ccontr)
      assume "\<not> 0 < k"
      then have "k = 0" by simp
      with Suc.prems have "unat x < 128" by simp
      with big show False by simp
    qed
    have "unat (drop_bit 7 x) = unat x div 2 ^ 7"
      by (simp add: drop_bit_eq_div unat_div)
    moreover from Suc.prems have "unat x < 2 ^ 7 * 2 ^ (7 * k)"
      by (simp add: power_add)
    ultimately have "unat (drop_bit 7 x) < 2 ^ (7 * k)"
      by (simp add: less_mult_imp_div_less mult.commute)
    from Suc.IH [OF k this] True show ?thesis
      by (subst varint_bytes.simps) simp
  qed
qed

lemma length_varint_bytes_le_10: "length (varint_bytes x) \<le> 10"
proof -
  have "unat x < 2 ^ 64" using unsigned_less [of x] by simp
  also have "(2::nat) ^ 64 \<le> 2 ^ (7 * 10)" by simp
  finally show ?thesis by (intro length_varint_bytes_le) simp_all
qed

lemma EncodeVarint_varint_bytes: "EncodeVarint x = Some (varint_bytes x)"
  unfolding EncodeVarint_def
  using EncodeVarint_loop_varint_bytes [of 0 x "replicate 10 0"] length_varint_bytes_le_10 [of x]
  by simp

subsection \<open>Bit patterns of the groups\<close>

lemma x7F_mask: "(0x7F :: 'a::len word) = mask 7"
  by (simp add: mask_eq_exp_minus_1)

lemma bit_x80_int: "bit (0x80 :: int) n \<longleftrightarrow> n = 7"
proof -
  have "bit (2 ^ 7 :: int) n \<longleftrightarrow> n = 7"
    by (simp only: bit_exp_iff possible_bit_def) auto
  moreover have "(2 ^ 7 :: int) = 0x80" by simp
  ultimately show ?thesis by (simp only:)
qed

lemma bit_x80: "bit (0x80 :: 'a::len word) n \<longleftrightarrow> n = 7 \<and> 7 < LENGTH('a)"
proof -
  have "bit (2 ^ 7 :: 'a word) n \<longleftrightarrow> n = 7 \<and> 7 < LENGTH('a)"
    by (auto simp only: bit_exp_iff possible_bit_word)
  moreover have "(2 ^ 7 :: 'a word) = 0x80" by simp
  ultimately show ?thesis by (simp only:)
qed

lemma push_bit_split7:
  "push_bit s (x AND 0x7F) OR push_bit (s + 7) (drop_bit 7 x) = push_bit s (x :: u64)"
proof (rule bit_word_eqI)
  fix n
  assume "n < LENGTH(64)"
  show "bit (push_bit s (x AND 0x7F) OR push_bit (s + 7) (drop_bit 7 x)) n = bit (push_bit s x) n"
  proof (cases "s + 7 \<le> n")
    case True
    then have "7 + (n - (s + 7)) = n - s" by simp
    with True show ?thesis
      unfolding x7F_mask by (auto simp: bit_simps)
  next
    case False
    then show ?thesis
      unfolding x7F_mask by (auto simp: bit_simps)
  qed
qed

lemma ucast_group_and:
  "(ucast (0x80 OR (ucast (x AND 0x7F :: u64) :: byte)) :: u64) AND 0x7F = x AND 0x7F"
  unfolding x7F_mask
  by (rule bit_word_eqI) (auto simp: bit_simps bit_x80 bit_x80_int)

lemma ucast_group_high:
  "(ucast (0x80 OR (ucast (x AND 0x7F :: u64) :: byte)) :: u64) AND 0x80 \<noteq> 0"
proof -
  have "bit ((ucast (0x80 OR (ucast (x AND 0x7F :: u64) :: byte)) :: u64) AND 0x80) 7"
    unfolding x7F_mask by (simp add: bit_simps bit_x80 bit_x80_int)
  then show ?thesis by auto
qed

lemma le_127_take_bit: "(x :: u64) \<le> 127 \<Longrightarrow> take_bit 7 x = x"
proof -
  assume "x \<le> 127"
  then have "x < 2 ^ 7" by (simp add: word_le_nat_alt word_less_nat_alt)
  then show ?thesis by (simp add: less_mask_eq take_bit_eq_mask)
qed

lemma ucast_last_and:
  "x \<le> 127 \<Longrightarrow> (ucast (ucast (x :: u64) :: byte) :: u64) AND 0x7F = x"
proof -
  assume "x \<le> 127"
  then have t: "take_bit 7 x = x" by (rule le_127_take_bit)
  have "(ucast (ucast (take_bit 7 x) :: byte) :: u64) AND mask 7 = take_bit 7 x"
    by (rule bit_word_eqI) (auto simp: bit_simps)
  then show ?thesis unfolding t x7F_mask .
qed

lemma ucast_last_high:
  "x \<le> 127 \<Longrightarrow> (ucast (ucast (x :: u64) :: byte) :: u64) AND 0x80 = 0"
proof -
  assume "x \<le> 127"
  then have t: "take_bit 7 x = x" by (rule le_127_take_bit)
  have "(ucast (ucast (take_bit 7 x) :: byte) :: u64) AND 0x80 = 0"
    by (rule bit_word_eqI) (auto simp: bit_simps bit_x80 bit_x80_int)
  then show ?thesis unfolding t .
qed

subsection \<open>Decoding the bytes of a varint\<close>

lemma DecodeVarint_loop_varint_bytes:
  "shift < 64 \<Longrightarrow> unat x < 2 ^ (64 - shift) \<Longrightarrow>
   DecodeVarint_loop shift acc n (varint_bytes x @ rest)
     = Inr (acc OR push_bit shift x, n + length (varint_bytes x), rest)"
proof (induction x arbitrary: shift acc n rule: varint_bytes.induct)
  case (1 x)
  show ?case
  proof (cases "x > 127")
    case False
    then have le: "x \<le> 127" by simp
    have g: "varint_bytes x = [ucast x]"
      using False by (subst varint_bytes.simps) simp
    show ?thesis
      unfolding g using "1.prems"(1)
      by (subst DecodeVarint_loop.simps)
         (simp add: Let_def ucast_last_and [OF le] ucast_last_high [OF le]
            del: push_bit_and)
  next
    case True
    have g: "varint_bytes x = (0x80 OR ucast (x AND 0x7F)) # varint_bytes (drop_bit 7 x)"
      using True by (subst varint_bytes.simps) simp
    from True have big: "127 < unat x" by (simp add: word_less_nat_alt)
    have s: "shift + 7 < 64"
    proof (rule ccontr)
      assume "\<not> shift + 7 < 64"
      then have "64 - shift \<le> 7" by simp
      then have "(2::nat) ^ (64 - shift) \<le> 2 ^ 7" by (rule power_increasing) simp
      with "1.prems"(2) big show False by simp
    qed
    have d: "unat (drop_bit 7 x) = unat x div 2 ^ 7"
      by (simp add: drop_bit_eq_div unat_div)
    have "64 - shift = 7 + (64 - (shift + 7))" using s by simp
    then have "unat x < 2 ^ 7 * 2 ^ (64 - (shift + 7))"
      using "1.prems"(2) by (simp only: power_add [symmetric])
    then have b: "unat (drop_bit 7 x) < 2 ^ (64 - (shift + 7))"
      unfolding d by (simp add: less_mult_imp_div_less mult.commute)
    have "DecodeVarint_loop shift acc n (varint_bytes x @ rest)
          = DecodeVarint_loop (shift + 7) (acc OR push_bit shift (x AND 0x7F)) (n + 1)
              (varint_bytes (drop_bit 7 x) @ rest)"
      unfolding g using "1.prems"(1)
      by (subst DecodeVarint_loop.simps)
         (simp add: Let_def ucast_group_and ucast_group_high del: push_bit_and)
    also have "\<dots> = Inr ((acc OR push_bit shift (x AND 0x7F)) OR push_bit (shift + 7) (drop_bit 7 x),
                          n + 1 + length (varint_bytes (drop_bit 7 x)), rest)"
      by (rule "1.IH" [OF True s b])
    finally show ?thesis
      unfolding g by (simp add: or.assoc push_bit_split7 del: push_bit_and)
  qed
qed

lemma DecodeVarint_varint_bytes:
  "DecodeVarint (varint_bytes x @ rest) = Inr (x, length (varint_bytes x), rest)"
proof -
  have "unat x < 2 ^ (64 - 0)" using unsigned_less [of x] by simp
  from DecodeVarint_loop_varint_bytes [OF _ this, of 0 0 rest] show ?thesis
    by (simp add: DecodeVarint_def)
qed

lemma varint_bytes_0: "varint_bytes 0 = [0]"
  by (subst varint_bytes.simps) simp

subsection \<open>When decoding fails\<close>

lemma and_x80_eq_0: "(w :: 'a::len word) AND 0x80 = 0 \<longleftrightarrow> \<not> bit w 7"
proof -
  have "w AND 2 ^ 7 = 0 \<longleftrightarrow> \<not> bit w 7"
    by (rule and_exp_eq_0_iff_not_bit)
  moreover have "(2 ^ 7 :: 'a word) = 0x80" by simp
  ultimately show ?thesis by (simp only:)
qed

lemma ucast_high_bit: "(ucast (val :: byte) :: u64) AND 0x80 = 0 \<longleftrightarrow> val AND 0x80 = 0"
  unfolding and_x80_eq_0 by (simp add: bit_simps)

lemma DecodeVarint_loop_TooLarge:
  "DecodeVarint_loop shift x n r = Inl TooLarge \<longleftrightarrow>
     (70 - shift) div 7 \<le> length r \<and> (\<forall>b \<in> set (take ((70 - shift) div 7) r). b AND 0x80 \<noteq> 0)"
proof (induction shift x n r rule: DecodeVarint_loop.induct)
  case (1 shift x n r)
  show ?case
  proof (cases "shift < 64")
    case False
    then have "(70 - shift) div 7 = 0" by simp
    with False show ?thesis
      by (subst DecodeVarint_loop.simps) simp
  next
    case True
    then have "70 - shift = 7 + (70 - (shift + 7))" by simp
    then have k: "(70 - shift) div 7 = Suc ((70 - (shift + 7)) div 7)"
      by (simp only: div_add_self1)
    show ?thesis
    proof (cases r)
      case Nil
      with True k show ?thesis
        by (subst DecodeVarint_loop.simps) simp
    next
      case (Cons val rest)
      show ?thesis
      proof (cases "val AND 0x80 = 0")
        case z: True
        then have "(ucast val :: u64) AND 0x80 = 0" using ucast_high_bit [of val] by blast
        with True Cons z k show ?thesis
          by (subst DecodeVarint_loop.simps) (simp add: Let_def del: push_bit_and)
      next
        case nz: False
        then have u: "(ucast val :: u64) AND 0x80 \<noteq> 0" using ucast_high_bit [of val] by blast
        have "DecodeVarint_loop shift x n r
              = DecodeVarint_loop (shift + 7) (x OR push_bit shift (ucast val AND 0x7F)) (n + 1) rest"
          using True Cons u
          by (subst DecodeVarint_loop.simps) (simp add: Let_def del: push_bit_and)
        moreover
        have "DecodeVarint_loop (shift + 7) (x OR push_bit shift (ucast val AND 0x7F)) (n + 1) rest
                = Inl TooLarge \<longleftrightarrow>
              (70 - (shift + 7)) div 7 \<le> length rest \<and>
              (\<forall>b \<in> set (take ((70 - (shift + 7)) div 7) rest). b AND 0x80 \<noteq> 0)"
          using u by (intro "1.IH" [OF True Cons refl refl refl]) simp
        ultimately show ?thesis
          using Cons nz by (simp add: k)
      qed
    qed
  qed
qed

section \<open>Identifier allocation\<close>

lemma length_nextChanIDs: "length (nextChanIDs n mp) = n"
  by (induction n arbitrary: mp) (simp_all add: nextChanID_def Let_def)

lemma nth_nextChanIDs:
  "i < n \<Longrightarrow>
   nextChanIDs n mp ! i = nextID mp + 2 * word_of_nat i + (if initiator mp then 1 else 0)"
proof (induction n arbitrary: mp i)
  case 0
  then show ?case by simp
next
  case (Suc n)
  show ?case
  proof (cases i)
    case 0
    then show ?thesis by (simp add: nextChanID_def Let_def)
  next
    case (Suc j)
    with Suc.prems have "j < n" by simp
    from Suc.IH [OF this, of "mp\<lparr>nextID := nextID mp + 2\<rparr>"] Suc show ?thesis
      by (simp add: nextChanID_def Let_def algebra_simps)
  qed
qed

lemma unat_fresh_id:
  assumes "i < 2 ^ 63"
  shows "unat (2 * word_of_nat i + (if ini then 1 else 0) :: u64) = 2 * i + (if ini then 1 else 0)"
proof -
  have "2 * i + (if ini then 1 else 0) < 2 ^ 64"
    using assms by (simp split: if_splits)
  then have "unat (word_of_nat (2 * i + (if ini then 1 else 0)) :: u64)
             = 2 * i + (if ini then 1 else 0)"
    by (intro of_nat_inverse [OF refl]) simp
  then show ?thesis by (simp split: if_splits)
qed

lemma fresh_ids_increasing:
  assumes "n \<le> 2 ^ 63"
  shows "sorted_wrt (<) (nextChanIDs n (NewMultiplex c ini))"
proof -
  have "nextChanIDs n (NewMultiplex c ini) ! i < nextChanIDs n (NewMultiplex c ini) ! j"
    if "i < j" "j < n" for i j
  proof -
    from that assms have i: "i < 2 ^ 63" and j: "j < 2 ^ 63" and "i < n" by simp_all
    have "nextChanIDs n (NewMultiplex c ini) ! i = 2 * word_of_nat i + (if ini then 1 else 0)"
      using nth_nextChanIDs [OF \<open>i < n\<close>, of "NewMultiplex c ini"]
      by (simp add: NewMultiplex_def)
    moreover
    have "nextChanIDs n (NewMultiplex c ini) ! j = 2 * word_of_nat j + (if ini then 1 else 0)"
      using nth_nextChanIDs [OF \<open>j < n\<close>, of "NewMultiplex c ini"]
      by (simp add: NewMultiplex_def)
    ultimately show ?thesis
      using unat_fresh_id [OF i, of ini] unat_fresh_id [OF j, of ini] \<open>i < j\<close>
      by (simp only: word_less_nat_alt)
  qed
  then show ?thesis
    by (simp add: sorted_wrt_iff_nth_less length_nextChanIDs)
qed

section \<open>Reading from a stream\<close>

lemma Read_loop_no_error:
  "Read_loop pick i s len_b nread out lb = Returns (n, err, bs, s') \<Longrightarrow> err = None"
proof (induction pick i s len_b nread out lb rule: Read_loop.induct)
  case (1 pick i s len_b nread out lb)
  show ?case
  proof (cases "len_b > 0 \<and> select2 (data_in s \<noteq> [] \<or> data_in_closed s) (closed s) (pick i) = Some First
                \<and> data_in s \<noteq> [] \<and> \<not> min len_b (length (hd (data_in s))) < length (hd (data_in s))")
    case True
    then obtain d ds where d: "data_in s = d # ds" by (cases "data_in s") auto
    with True "1.prems"
    have "Read_loop pick (i + 1) (s\<lparr>data_in := ds\<rparr>) (len_b - min len_b (length d))
            (nread + min len_b (length d)) (out @ take (min len_b (length d)) d) lb
          = Returns (n, err, bs, s')"
      by (subst (asm) Read_loop.simps) (simp add: Let_def)
    with True d show ?thesis
      by (intro "1.IH" [of First d ds "min len_b (length d)"]) simp_all
  next
    case False
    with "1.prems" show ?thesis
      by (subst (asm) Read_loop.simps)
         (auto simp: Let_def split: if_splits option.splits sel.splits list.splits)
  qed
qed

lemma Read_error_only_EOF:
  "Read pick s lb = Returns (n, Some e, bs, s') \<Longrightarrow> closed s \<and> n = 0 \<and> bs = [] \<and> e = EOF \<and> s' = s"
  by (auto simp: Read_def Buffer_Read_def split: if_splits dest: Read_loop_no_error)

section \<open>The Close tag\<close>

lemma tag_of_Close_header: "(push_bit 3 i OR 4 :: u64) AND 7 = 4"
proof -
  have "(7 :: u64) = mask 3"
    by (simp add: mask_eq_exp_minus_1)
  then have "(push_bit 3 i OR 4 :: u64) AND 7 = take_bit 3 (push_bit 3 i OR 4)"
    by (simp only: take_bit_eq_mask)
  also have "\<dots> = take_bit 3 (4 :: u64)"
    by (simp only: take_bit_or take_bit_push_bit) simp
  also have "\<dots> = 4"
    by (simp add: take_bit_eq_mod)
  finally show ?thesis .
qed

lemma readNextHeader_Close_header:
  "readNextHeader (varint_bytes (push_bit 3 i OR 4) @ rest)
     = Inr (drop_bit 3 (push_bit 3 i OR 4), Close, rest)"
  unfolding readNextHeader_def DecodeVarint_varint_bytes Close_def
  by (simp only: sum.case prod.case tag_of_Close_header)

lemma Stream_Close_open:
  "Stream_Close ready (s\<lparr>closed := False, data_in_closed := False\<rparr>)
     = Returns (None, s\<lparr>closed := True, data_in_closed := True\<rparr>,
                if ready then [\<lparr>msg_header = push_bit 3 (sid s) OR Close, msg_data = []\<rparr>] else [])"
  by (simp add: Stream_Close_def)

section \<open>Closing\<close>

lemma Stream_Close_closed:
  "Stream_Close ready s = Returns (e, s', sent) \<Longrightarrow> closed s'"
  by (auto simp: Stream_Close_def split: if_splits)

lemma Stream_Close_again:
  "closed s \<Longrightarrow> Stream_Close ready s = Returns (None, s, [])"
  by (simp add: Stream_Close_def)

lemma Close_range_mp_closed:
  "Close_range ready cs mp = Returns (e, mp') \<Longrightarrow> mp_closed mp' = mp_closed mp"
proof (induction cs arbitrary: mp)
  case Nil
  then show ?case by simp
next
  case (Cons c cs)
  obtain i a where c: "c = (i, a)" by (cases c)
  from Cons.prems show ?case
    unfolding c
    by (auto simp: Let_def split: outcome.splits if_splits dest!: Cons.IH)
qed

lemma Multiplex_Close_closed:
  "Multiplex_Close ready mp = Returns (e, mp') \<Longrightarrow> mp_closed mp'"
  by (auto simp: Multiplex_Close_def IsClosed_def split: if_splits dest: Close_range_mp_closed)

lemma Multiplex_Close_again:
  "mp_closed mp \<Longrightarrow> Multiplex_Close ready mp = Returns (None, mp)"
  by (simp add: Multiplex_Close_def IsClosed_def)

subsection \<open>Operations on a closed stream\<close>

text \<open>
  On a closed stream \<open>Write\<close> fails unless the serializer is waiting and the
  scheduler takes the send; on an open stream it succeeds as soon as the serializer
  takes the message. \<open>receive\<close> on a stream that \<open>Stream.Close\<close> has closed never
  delivers the payload: it drops it or panics, as the scheduler chooses.
\<close>

lemma Write_closed:
  "closed s \<Longrightarrow>
   Write ready pick s b =
     (if ready \<and> pick then Returns (length b, None, [\<lparr>msg_header = header s, msg_data = b\<rparr>])
      else Returns (0, Some StreamClosed, []))"
  by (simp add: Write_def select2_def)

lemma Write_open:
  "\<not> closed s \<Longrightarrow>
   Write ready pick s b =
     (if ready then Returns (length b, None, [\<lparr>msg_header = header s, msg_data = b\<rparr>])
      else Blocks)"
  by (simp add: Write_def select2_def)

lemma receive_closed:
  "closed s \<Longrightarrow> data_in_closed s \<Longrightarrow>
   receive pick s b = (if pick then Panics else Returns s)"
  by (simp add: receive_def select2_def)

section \<open>The end of the input\<close>














section \<open>No inbox is closed before the closed signal\<close>










section \<open>A frame for a stream that is not in the map\<close>

lemma Close_not_NewStream: "Close \<noteq> NewStream"
  by (simp add: Close_def NewStream_def)

lemma open_stream_Close:
  "open_stream mp ch Close b =
     (mp\<lparr>heap := (heap mp)(next_addr mp := newStream ch [] False),
         next_addr := next_addr mp + 1,
         channels := AList.update ch (next_addr mp) (channels mp),
         spawned := spawned mp @ [next_addr mp]\<rparr>, next_addr mp)"
  by (simp add: open_stream_def Let_def Close_not_NewStream)

lemma deliver_Close_new:
  "deliver ready pick (fst (open_stream mp ch Close b)) (next_addr mp) ch Close b =
   Returns (mp\<lparr>heap := (heap mp)(next_addr mp :=
                         (newStream ch [] False)\<lparr>closed := True, data_in_closed := True\<rparr>),
               next_addr := next_addr mp + 1,
               spawned := spawned mp @ [next_addr mp],
               outchan := outchan mp @
                 (if ready then [\<lparr>msg_header = push_bit 3 ch OR Close, msg_data = []\<rparr>] else []),
               channels := AList.delete ch (AList.update ch (next_addr mp) (channels mp))\<rparr>)"
  by (simp add: open_stream_def deliver_def Let_def Close_not_NewStream Stream_Close_def
        newStream_def)

lemma dispatch_Close_unknown:
  assumes "map_of (channels mp) ch = None"
  shows "dispatch ready pick mp ch Close b =
     Returns (mp\<lparr>heap := (heap mp)(next_addr mp :=
                         (newStream ch [] False)\<lparr>closed := True, data_in_closed := True\<rparr>),
                 next_addr := next_addr mp + 1,
                 spawned := spawned mp @ [next_addr mp],
                 outchan := outchan mp @
                   (if ready then [\<lparr>msg_header = push_bit 3 ch OR Close, msg_data = []\<rparr>] else []),
                 channels := AList.delete ch (AList.update ch (next_addr mp) (channels mp))\<rparr>)"
  using assms
  by (simp add: dispatch_def open_stream_def deliver_def Let_def Close_not_NewStream
        Stream_Close_def newStream_def)

lemma map_of_delete_update_fresh:
  "map_of al k = None \<Longrightarrow> map_of (AList.delete k (AList.update k v al)) = map_of al"
  by (rule ext) (simp add: AList.delete_conv AList.update_conv)

section \<open>Claims\<close>

text \<open>
  C1 (as stated: the Close frame carries tag 5, the Close header of stream 42 is 341).
  \<open>Close\<close> is the fifth name of the \<open>iota\<close> block, so its value is 4: the message that
  \<open>Stream.Close\<close> hands to the serializer for the stream with id 42 has header 340.
\<close>

theorem Close_header_42_is_340:
  "Stream_Close True (newStream 42 [] True)
     = Returns (None, (newStream 42 [] True)\<lparr>closed := True, data_in_closed := True\<rparr>,
                [\<lparr>msg_header = 340, msg_data = []\<rparr>])"
  by (simp add: Stream_Close_def newStream_def Close_def)

text \<open>
  C1 (amended). A Close-tagged frame carries wire tag 4: for every stream id, the
  message that \<open>Stream.Close\<close> emits on an open stream has the header \<open>(id << 3) | 4\<close>,
  and \<open>readNextHeader\<close>, reading the varint of that header, yields the tag 4, which is
  the constant \<open>Close\<close> that the dispatch loop compares the tag with; for id 42 the
  Close header is 340.
\<close>

theorem Close_tag_is_4:
  "Stream_Close True (s\<lparr>closed := False, data_in_closed := False\<rparr>)
     = Returns (None, s\<lparr>closed := True, data_in_closed := True\<rparr>,
                [\<lparr>msg_header = push_bit 3 (sid s) OR 4, msg_data = []\<rparr>])
   \<and> (\<exists>hb. EncodeVarint (push_bit 3 i OR 4) = Some hb
          \<and> readNextHeader (hb @ rest) = Inr (drop_bit 3 (push_bit 3 i OR 4), Close, rest))
   \<and> Close = 4
   \<and> push_bit 3 (sid (newStream 42 nm ini)) OR Close = 340"
proof -
  have "Stream_Close True (s\<lparr>closed := False, data_in_closed := False\<rparr>)
     = Returns (None, s\<lparr>closed := True, data_in_closed := True\<rparr>,
                [\<lparr>msg_header = push_bit 3 (sid s) OR 4, msg_data = []\<rparr>])"
    by (simp only: Stream_Close_open Close_def if_True)
  moreover have "\<exists>hb. EncodeVarint (push_bit 3 i OR 4) = Some hb
          \<and> readNextHeader (hb @ rest) = Inr (drop_bit 3 (push_bit 3 i OR 4), Close, rest)"
    using EncodeVarint_varint_bytes readNextHeader_Close_header by blast
  moreover have "push_bit 3 (sid (newStream 42 nm ini)) OR Close = 340"
    by (simp add: newStream_def Close_def)
  ultimately show ?thesis
    by (simp only: Close_def simp_thms)
qed

text \<open>
  C2 (as stated: after the closed signal a Read first drains the residual buffer and
  the queued payloads). A stream receives the payload \<open>[1, 2, 3]\<close> and is then closed;
  the next \<open>Read\<close> into a slice of 4 bytes returns \<open>(0, EOF)\<close>, copies nothing and
  leaves the payload in the queue.
\<close>

theorem Read_after_close_drains_nothing:
  "receive True (newStream 1 [] False) [1, 2, 3]
     = Returns ((newStream 1 [] False)\<lparr>data_in := [[1, 2, 3]]\<rparr>)
   \<and> Stream_Close False ((newStream 1 [] False)\<lparr>data_in := [[1, 2, 3]]\<rparr>)
     = Returns (None, (newStream 1 [] False)
                  \<lparr>data_in := [[1, 2, 3]], closed := True, data_in_closed := True\<rparr>, [])
   \<and> Read always
        ((newStream 1 [] False)\<lparr>data_in := [[1, 2, 3]], closed := True, data_in_closed := True\<rparr>) 4
     = Returns (0, Some EOF, [],
         (newStream 1 [] False)\<lparr>data_in := [[1, 2, 3]], closed := True, data_in_closed := True\<rparr>)"
  by (simp add: receive_def select2_def newStream_def Stream_Close_def Read_def)

text \<open>
  C2 (amended). After a stream's closed signal has fired, every subsequent \<open>Read\<close>
  returns \<open>(0, EOF)\<close> at once: it copies no byte and leaves the residual buffer and the
  payloads queued in the inbox where they are. \<open>Read\<close> returns an error only in that
  way, with zero bytes copied; a call that copies at least one byte returns Ok.
\<close>

theorem Read_closed_EOF:
  "(closed s \<longrightarrow> Read pick s lb = Returns (0, Some EOF, [], s))
   \<and> (Read pick s lb = Returns (n, Some e, bs, s') \<longrightarrow>
        e = EOF \<and> n = 0 \<and> bs = [] \<and> closed s \<and> s' = s)"
proof -
  have "Read pick s lb = Returns (0, Some EOF, [], s)" if "closed s"
    using that by (simp add: Read_def)
  then show ?thesis
    using Read_error_only_EOF [of pick s lb n e bs s'] by blast
qed

theorem Read_closed_EOF_witness:
  "closed ((newStream 1 [] False)\<lparr>buf := [7], closed := True, data_in_closed := True\<rparr>)
   \<and> Read always
        ((newStream 1 [] False)\<lparr>buf := [7], closed := True, data_in_closed := True\<rparr>) 4
     = Returns (0, Some EOF, [],
         (newStream 1 [] False)\<lparr>buf := [7], closed := True, data_in_closed := True\<rparr>)"
  using Read_closed_EOF [of "(newStream 1 [] False)\<lparr>buf := [7], closed := True, data_in_closed := True\<rparr>"
      always 4 0 EOF "[]"
      "(newStream 1 [] False)\<lparr>buf := [7], closed := True, data_in_closed := True\<rparr>"]
  by simp

text \<open>
  C3. Varint round trip: for every 64-bit \<open>x\<close>, \<open>EncodeVarint x\<close> returns between 1 and
  10 bytes, \<open>0\<close> is encoded as the single byte \<open>0x00\<close>, and \<open>DecodeVarint\<close> on the
  encoding (followed by any further input \<open>rest\<close>) returns \<open>x\<close>, the number of bytes of
  the encoding, and leaves \<open>rest\<close> in the reader.
\<close>

theorem varint_roundtrip:
  "(\<exists>bs. EncodeVarint x = Some bs \<and> 1 \<le> length bs \<and> length bs \<le> 10
         \<and> DecodeVarint bs = Inr (x, length bs, [])
         \<and> DecodeVarint (bs @ rest) = Inr (x, length bs, rest))
   \<and> EncodeVarint 0 = Some [0x00]"
proof -
  have "1 \<le> length (varint_bytes x)"
    using length_varint_bytes_pos [of x] by linarith
  moreover have "DecodeVarint (varint_bytes x) = Inr (x, length (varint_bytes x), [])"
    using DecodeVarint_varint_bytes [of x "[]"] by simp
  ultimately show ?thesis
    using EncodeVarint_varint_bytes [of x] EncodeVarint_varint_bytes [of 0]
      length_varint_bytes_le_10 [of x] DecodeVarint_varint_bytes [of x rest]
    by (simp add: varint_bytes_0)
qed

text \<open>
  C4 (as stated: any input whose value bits extend past bit 63 is rejected). Nine bytes
  \<open>0x80\<close> followed by \<open>0x02\<close> denote \<open>2 ^ 64\<close>; \<open>DecodeVarint\<close> returns the value 0
  with 10 bytes read and no error: the shift by 63 drops the bit.
\<close>

theorem DecodeVarint_truncates:
  "DecodeVarint [0x80, 0x80, 0x80, 0x80, 0x80, 0x80, 0x80, 0x80, 0x80, 0x02] = Inr (0, 10, [])"
  by (simp add: DecodeVarint_def DecodeVarint_loop.simps)

text \<open>
  C4 (amended). \<open>DecodeVarint\<close> fails with the error \<open>Too large of a number!\<close> exactly
  when the input has at least ten bytes and each of the first ten has the high bit set;
  in particular every 10-byte input whose bytes all have the high bit set fails. In
  every other case, also when the tenth byte carries bits beyond bit 63, it does not
  fail with that error.
\<close>

theorem DecodeVarint_TooLarge_iff:
  "DecodeVarint r = Inl TooLarge \<longleftrightarrow>
     10 \<le> length r \<and> (\<forall>b \<in> set (take 10 r). b AND 0x80 \<noteq> 0)"
  unfolding DecodeVarint_def
  using DecodeVarint_loop_TooLarge [of 0 0 0 r] by simp

theorem DecodeVarint_TooLarge_witness:
  "DecodeVarint (replicate 10 0xFF) = Inl TooLarge
   \<and> DecodeVarint [0x80, 0x81, 0x82, 0x83, 0x84, 0x85, 0x86, 0x87, 0x88, 0x89, 0x01] = Inl TooLarge"
  using DecodeVarint_TooLarge_iff [of "replicate 10 0xFF"]
    DecodeVarint_TooLarge_iff [of "[0x80, 0x81, 0x82, 0x83, 0x84, 0x85, 0x86, 0x87, 0x88, 0x89, 0x01]"]
  by simp

text \<open>
  C5 (as stated: issued ids are strictly increasing and never reused). The counter is a
  \<open>uint64\<close> and \<open>mp.nextID += 2\<close> wraps around: on a fresh initiator the call number
  \<open>2 ^ 63 + 1\<close> returns the id 1, which the first call has returned.
\<close>

theorem nextChanID_reuses_id:
  "nextChanIDs (2 ^ 63 + 1) (NewMultiplex [] True) ! 0 = 1
   \<and> nextChanIDs (2 ^ 63 + 1) (NewMultiplex [] True) ! (2 ^ 63) = 1"
proof -
  have "(0::nat) < 2 ^ 63 + 1" and "(2::nat) ^ 63 < 2 ^ 63 + 1" by simp_all
  from nth_nextChanIDs [OF this(1), of "NewMultiplex [] True"]
       nth_nextChanIDs [OF this(2), of "NewMultiplex [] True"]
  show ?thesis by (simp add: NewMultiplex_def)
qed

text \<open>
  C5 (amended). On a multiplexer made with \<open>initiator = true\<close> the first four calls of
  \<open>nextChanID\<close> return 1, 3, 5, 7, with \<open>initiator = false\<close> 0, 2, 4, 6. Every call
  returns \<open>nextID + 1\<close> (initiator) or \<open>nextID\<close> (responder) and adds 2 to \<open>nextID\<close>,
  in 64-bit arithmetic. The first \<open>2 ^ 63\<close> ids issued by a fresh multiplexer are
  strictly increasing, so none of them is issued twice.
\<close>

theorem nextChanID_parity:
  "nextChanIDs 4 (NewMultiplex c True) = [1, 3, 5, 7]
   \<and> nextChanIDs 4 (NewMultiplex c False) = [0, 2, 4, 6]
   \<and> nextChanID mp = (if initiator mp then nextID mp + 1 else nextID mp,
                       mp\<lparr>nextID := nextID mp + 2\<rparr>)
   \<and> (n \<le> 2 ^ 63 \<longrightarrow>
        sorted_wrt (<) (nextChanIDs n (NewMultiplex c ini))
        \<and> distinct (nextChanIDs n (NewMultiplex c ini)))"
proof -
  have "nextChanIDs 4 (NewMultiplex c True) = [1, 3, 5, 7]"
    by (simp add: numeral_eq_Suc nextChanID_def NewMultiplex_def Let_def)
  moreover have "nextChanIDs 4 (NewMultiplex c False) = [0, 2, 4, 6]"
    by (simp add: numeral_eq_Suc nextChanID_def NewMultiplex_def Let_def)
  moreover have "nextChanID mp = (if initiator mp then nextID mp + 1 else nextID mp,
                       mp\<lparr>nextID := nextID mp + 2\<rparr>)"
    by (simp add: nextChanID_def Let_def)
  moreover have "distinct (nextChanIDs n (NewMultiplex c ini))" if "n \<le> 2 ^ 63"
    using fresh_ids_increasing [OF that, of c ini] by (simp add: strict_sorted_iff)
  ultimately show ?thesis
    using fresh_ids_increasing [of n c ini] by blast
qed

theorem nextChanID_parity_witness:
  "(5::nat) \<le> 2 ^ 63
   \<and> sorted_wrt (<) (nextChanIDs 5 (NewMultiplex [] True))
   \<and> distinct (nextChanIDs 5 (NewMultiplex [] True))
   \<and> nextChanIDs 5 (NewMultiplex [] True) = [1, 3, 5, 7, 9]"
proof -
  have "nextChanIDs 5 (NewMultiplex [] True) = [1, 3, 5, 7, 9]"
    by (simp add: numeral_eq_Suc nextChanID_def NewMultiplex_def Let_def)
  then show ?thesis
    using nextChanID_parity [of "[]" "NewMultiplex [] True" 5 True] by simp
qed

text \<open>
  C6 (every Write on a closed stream returns \<open>(0, StreamClosed)\<close> and forwards nothing):
  the code at the failing input. The stream is closed and the serializer takes the
  Close message; then the serializer waits for the next message, and in the \<open>select\<close>
  of \<open>Write\<close> both cases can proceed. When the scheduler takes the send, the Write of
  two bytes returns \<open>(2, nil)\<close> and the data message goes to the serializer, after the
  Close message of the same stream.
\<close>

theorem Write_on_closed_stream_can_succeed:
  "Stream_Close True (newStream 1 [] True)
     = Returns (None, (newStream 1 [] True)\<lparr>closed := True, data_in_closed := True\<rparr>,
                [\<lparr>msg_header = 12, msg_data = []\<rparr>])
   \<and> Write True True ((newStream 1 [] True)\<lparr>closed := True, data_in_closed := True\<rparr>) [0x68, 0x69]
     = Returns (2, None, [\<lparr>msg_header = 10, msg_data = [0x68, 0x69]\<rparr>])
   \<and> Write True False ((newStream 1 [] True)\<lparr>closed := True, data_in_closed := True\<rparr>) [0x68, 0x69]
     = Returns (0, Some StreamClosed, [])"
  by (simp add: Stream_Close_def Write_def select2_def newStream_def Close_def)



text \<open>
  C8 (receive on a closed stream drops the payload without panicking): the code at the
  failing input. After \<open>Stream.Close\<close> both channels are closed, so both cases of the
  \<open>select\<close> of \<open>receive\<close> can proceed; when the scheduler takes the send on the closed
  \<open>data_in\<close>, \<open>receive\<close> panics. When it takes the other case the payload is dropped.
\<close>

theorem receive_on_closed_stream_can_panic:
  "Stream_Close False (newStream 1 [] False)
     = Returns (None, (newStream 1 [] False)\<lparr>closed := True, data_in_closed := True\<rparr>, [])
   \<and> receive True ((newStream 1 [] False)\<lparr>closed := True, data_in_closed := True\<rparr>) [1, 2, 3]
     = Panics
   \<and> receive False ((newStream 1 [] False)\<lparr>closed := True, data_in_closed := True\<rparr>) [1, 2, 3]
     = Returns ((newStream 1 [] False)\<lparr>closed := True, data_in_closed := True\<rparr>)"
  by (simp add: Stream_Close_def receive_def select2_def newStream_def)

text \<open>
  C9. Close is idempotent. The first \<open>Stream.Close\<close> on an open stream fires the closed
  signal, offers the Close message to the serializer and closes the inbox; whenever a
  call of \<open>Stream.Close\<close> has returned, a second call returns Ok, leaves the stream as it
  is and sends nothing. Whenever a call of \<open>Multiplex.Close\<close> has returned, a second call
  returns Ok and changes nothing.
\<close>

theorem Close_idempotent:
  "Stream_Close r1 (s\<lparr>closed := False, data_in_closed := False\<rparr>)
     = Returns (None, s\<lparr>closed := True, data_in_closed := True\<rparr>,
                if r1 then [\<lparr>msg_header = push_bit 3 (sid s) OR Close, msg_data = []\<rparr>] else [])
   \<and> (Stream_Close r1 s = Returns (e, s1, sent) \<longrightarrow> Stream_Close r2 s1 = Returns (None, s1, []))
   \<and> (Multiplex_Close rd1 mp = Returns (e', mp1) \<longrightarrow> Multiplex_Close rd2 mp1 = Returns (None, mp1))"
  using Stream_Close_open [of r1 s]
    Stream_Close_again [OF Stream_Close_closed, of r1 s e s1 sent r2]
    Multiplex_Close_again [OF Multiplex_Close_closed, of rd1 mp e' mp1 rd2]
  by blast

theorem Close_idempotent_witness:
  "Stream_Close True (newStream 3 [] False)
     = Returns (None, (newStream 3 [] False)\<lparr>closed := True, data_in_closed := True\<rparr>,
                [\<lparr>msg_header = 28, msg_data = []\<rparr>])
   \<and> Stream_Close True ((newStream 3 [] False)\<lparr>closed := True, data_in_closed := True\<rparr>)
     = Returns (None, (newStream 3 [] False)\<lparr>closed := True, data_in_closed := True\<rparr>, [])
   \<and> Multiplex_Close always
        ((NewMultiplex [] False)
          \<lparr>heap := (heap (NewMultiplex [] False))(0 := newStream 3 [] False),
           next_addr := 1, channels := [(3, 0)], spawned := [0]\<rparr>)
     = Returns (None,
        ((NewMultiplex [] False)
          \<lparr>heap := (heap (NewMultiplex [] False))
                     (0 := (newStream 3 [] False)\<lparr>closed := True, data_in_closed := True\<rparr>),
           next_addr := 1, channels := [(3, 0)], spawned := [0], mp_closed := True,
           outchan := [\<lparr>msg_header = 28, msg_data = []\<rparr>]\<rparr>))
   \<and> Multiplex_Close always
        ((NewMultiplex [] False)
          \<lparr>heap := (heap (NewMultiplex [] False))
                     (0 := (newStream 3 [] False)\<lparr>closed := True, data_in_closed := True\<rparr>),
           next_addr := 1, channels := [(3, 0)], spawned := [0], mp_closed := True,
           outchan := [\<lparr>msg_header = 28, msg_data = []\<rparr>]\<rparr>)
     = Returns (None,
        ((NewMultiplex [] False)
          \<lparr>heap := (heap (NewMultiplex [] False))
                     (0 := (newStream 3 [] False)\<lparr>closed := True, data_in_closed := True\<rparr>),
           next_addr := 1, channels := [(3, 0)], spawned := [0], mp_closed := True,
           outchan := [\<lparr>msg_header = 28, msg_data = []\<rparr>]\<rparr>))"
proof -
  have s1: "Stream_Close True (newStream 3 [] False)
     = Returns (None, (newStream 3 [] False)\<lparr>closed := True, data_in_closed := True\<rparr>,
                [\<lparr>msg_header = 28, msg_data = []\<rparr>])"
    by (simp add: Stream_Close_def newStream_def Close_def)
  have m1: "Multiplex_Close always
        ((NewMultiplex [] False)
          \<lparr>heap := (heap (NewMultiplex [] False))(0 := newStream 3 [] False),
           next_addr := 1, channels := [(3, 0)], spawned := [0]\<rparr>)
     = Returns (None,
        ((NewMultiplex [] False)
          \<lparr>heap := (heap (NewMultiplex [] False))
                     (0 := (newStream 3 [] False)\<lparr>closed := True, data_in_closed := True\<rparr>),
           next_addr := 1, channels := [(3, 0)], spawned := [0], mp_closed := True,
           outchan := [\<lparr>msg_header = 28, msg_data = []\<rparr>]\<rparr>))"
    by (simp add: Multiplex_Close_def IsClosed_def NewMultiplex_def Stream_Close_def
          newStream_def Close_def)
  from s1 m1
    Close_idempotent [where ?r1.0 = True and s = "newStream 3 [] False" and e = None
      and ?s1.0 = "(newStream 3 [] False)\<lparr>closed := True, data_in_closed := True\<rparr>"
      and sent = "[\<lparr>msg_header = 28, msg_data = []\<rparr>]" and ?r2.0 = True
      and ?rd1.0 = always
      and mp = "((NewMultiplex [] False)
          \<lparr>heap := (heap (NewMultiplex [] False))(0 := newStream 3 [] False),
           next_addr := 1, channels := [(3, 0)], spawned := [0]\<rparr>)"
      and e' = None
      and ?mp1.0 = "((NewMultiplex [] False)
          \<lparr>heap := (heap (NewMultiplex [] False))
                     (0 := (newStream 3 [] False)\<lparr>closed := True, data_in_closed := True\<rparr>),
           next_addr := 1, channels := [(3, 0)], spawned := [0], mp_closed := True,
           outchan := [\<lparr>msg_header = 28, msg_data = []\<rparr>]\<rparr>)"
      and ?rd2.0 = always]
  show ?thesis by blast
qed

text \<open>
  C10 (as stated: the handler observes an already-closed stream). A Close frame for the
  unknown id 10 arrives at a new multiplexer. At \<open>go handler(msch)\<close> the map holds the
  new stream, the handler is started on it, and the stream is open: \<open>msch.Close()\<close>
  comes later in the pass and nothing makes the handler wait for it. A handler that
  runs at once finds the stream open; its \<open>Write\<close> of one byte is accepted, and its
  \<open>Read\<close> gets past the test of \<open>closed\<close> and waits for data; when the loop then closes
  the stream, the waiting \<open>Read\<close> goes on in its loop and returns \<open>(0, nil)\<close>, not EOF.
\<close>

theorem handler_can_find_stream_open:
  "open_stream (NewMultiplex [] False) 10 Close []
     = ((NewMultiplex [] False)
          \<lparr>heap := (heap (NewMultiplex [] False))(0 := newStream 10 [] False),
           next_addr := 1, channels := [(10, 0)], spawned := [0]\<rparr>, 0)
   \<and> \<not> closed (newStream 10 [] False)
   \<and> Write True False (newStream 10 [] False) [0x61]
     = Returns (1, None, [\<lparr>msg_header = 81, msg_data = [0x61]\<rparr>])
   \<and> Read never (newStream 10 [] False) 4 = Blocks
   \<and> Read_loop always 0 ((newStream 10 [] False)\<lparr>closed := True, data_in_closed := True\<rparr>)
        4 0 [] 4
     = Returns (0, None, [], (newStream 10 [] False)\<lparr>closed := True, data_in_closed := True\<rparr>)"
  by (simp add: open_stream_def Let_def NewMultiplex_def Close_not_NewStream newStream_def
        Write_def select2_def Read_def Read_loop.simps)

text \<open>
  C10 (amended). When the dispatch loop receives a Close-tagged frame whose stream id is
  not in the map \<open>channels\<close>, it does not ignore the frame: it creates a new stream for
  that id (open, not an initiator, with the empty name), puts it into the map and
  spawns a handler invocation on it while it is still open; later in the same pass it
  closes the stream, offering the Close message to the serializer, and deletes the id
  from the map, so that the map is as before; the loop goes on, and nothing else of the
  multiplexer changes but the reader's position. At the end of the pass the stream that
  the handler holds is closed and its inbox is closed. The handler runs concurrently
  from the moment it is spawned, so it is not certain to find the stream closed.
\<close>

theorem Close_frame_for_unknown_stream:
  assumes "readNextHeader (con mp) = Inr (ch, Close, r1)"
    and "readNext avail r1 = Returns (Inr (b, r2))"
    and "map_of (channels mp) ch = None"
  shows
    "open_stream (mp\<lparr>con := r2\<rparr>) ch Close b
       = (mp\<lparr>con := r2,
              heap := (heap mp)(next_addr mp := newStream ch [] False),
              next_addr := next_addr mp + 1,
              channels := AList.update ch (next_addr mp) (channels mp),
              spawned := spawned mp @ [next_addr mp]\<rparr>, next_addr mp)
     \<and> \<not> closed (newStream ch [] False)
     \<and> serve_step ready pick avail mp
       = Returns (Continue
           (mp\<lparr>con := r2,
               heap := (heap mp)(next_addr mp :=
                          (newStream ch [] False)\<lparr>closed := True, data_in_closed := True\<rparr>),
               next_addr := next_addr mp + 1,
               spawned := spawned mp @ [next_addr mp],
               outchan := outchan mp @
                 (if ready then [\<lparr>msg_header = push_bit 3 ch OR Close, msg_data = []\<rparr>] else []),
               channels := AList.delete ch (AList.update ch (next_addr mp) (channels mp))\<rparr>))
     \<and> map_of (AList.delete ch (AList.update ch (next_addr mp) (channels mp)))
       = map_of (channels mp)"
proof -
  from assms(3) have m: "map_of (channels (mp\<lparr>con := r2\<rparr>)) ch = None" by simp
  have "serve_step ready pick avail mp
       = Returns (Continue
           (mp\<lparr>con := r2,
               heap := (heap mp)(next_addr mp :=
                          (newStream ch [] False)\<lparr>closed := True, data_in_closed := True\<rparr>),
               next_addr := next_addr mp + 1,
               spawned := spawned mp @ [next_addr mp],
               outchan := outchan mp @
                 (if ready then [\<lparr>msg_header = push_bit 3 ch OR Close, msg_data = []\<rparr>] else []),
               channels := AList.delete ch (AList.update ch (next_addr mp) (channels mp))\<rparr>))"
    using dispatch_Close_unknown [OF m, of ready pick b] assms(1,2)
    by (simp add: serve_step_def)
  moreover have "\<not> closed (newStream ch [] False)"
    by (simp add: newStream_def)
  moreover have "open_stream (mp\<lparr>con := r2\<rparr>) ch Close b
       = (mp\<lparr>con := r2,
              heap := (heap mp)(next_addr mp := newStream ch [] False),
              next_addr := next_addr mp + 1,
              channels := AList.update ch (next_addr mp) (channels mp),
              spawned := spawned mp @ [next_addr mp]\<rparr>, next_addr mp)"
    by (simp add: open_stream_Close)
  ultimately show ?thesis
    using map_of_delete_update_fresh [OF assms(3), of "next_addr mp"] by blast
qed

theorem Close_frame_for_unknown_stream_witness:
  "readNextHeader (con (NewMultiplex [0x54, 0x00] False)) = Inr (10, Close, [0x00])
   \<and> readNext 0 [0x00] = Returns (Inr ([], []))
   \<and> map_of (channels (NewMultiplex [0x54, 0x00] False)) 10 = None
   \<and> open_stream ((NewMultiplex [0x54, 0x00] False)\<lparr>con := []\<rparr>) 10 Close []
     = ((NewMultiplex [] False)
          \<lparr>heap := (heap (NewMultiplex [] False))(0 := newStream 10 [] False),
           next_addr := 1, channels := [(10, 0)], spawned := [0]\<rparr>, 0)
   \<and> serve_step True False 0 (NewMultiplex [0x54, 0x00] False)
     = Returns (Continue
         ((NewMultiplex [] False)
            \<lparr>heap := (heap (NewMultiplex [] False))
                       (0 := (newStream 10 [] False)\<lparr>closed := True, data_in_closed := True\<rparr>),
             next_addr := 1, spawned := [0],
             outchan := [\<lparr>msg_header = 84, msg_data = []\<rparr>],
             channels := []\<rparr>))"
proof -
  have d: "DecodeVarint [0x54, 0x00] = Inr (84, 1, [0x00])" "DecodeVarint [0x00] = Inr (0, 1, [])"
    by (simp_all add: DecodeVarint_def DecodeVarint_loop.simps)
  have h: "readNextHeader (con (NewMultiplex [0x54, 0x00] False)) = Inr (10, Close, [0x00])"
    by (simp add: NewMultiplex_def readNextHeader_def d Close_def drop_bit_eq_div)
  have n: "readNext 0 [0x00] = Returns (Inr ([], []))"
    by (simp add: readNext_def d ReadFull_def maxAlloc_def)
  have m: "map_of (channels (NewMultiplex [0x54, 0x00] False)) 10 = None"
    by (simp add: NewMultiplex_def)
  from Close_frame_for_unknown_stream [OF h n m, of True False] h n m show ?thesis
    by (simp add: NewMultiplex_def Close_def)
qed

end
